theory Spec2Isabelle
  imports Complex_Main "HOL-Library.Sublist"
begin

section \<open>Python values and exceptions\<close>

text \<open>
  The agent of \<^verbatim>\<open>claude_coding_agent.py\<close> handles values of type \<^verbatim>\<open>Any\<close> that
  come out of JSON: the parameters of a tool call, the structured output of the final
  message and whatever \<^verbatim>\<open>json.loads\<close> returns. They are one datatype. A Python
  \<^verbatim>\<open>str\<close> is a \<^typ>\<open>string\<close>, an \<^verbatim>\<open>int\<close> is an unbounded \<^typ>\<open>int\<close>, a
  \<^verbatim>\<open>dict\<close> is an association list in insertion order. A float is kept as the exact
  rational it denotes (or one of the three special values); rounding to binary64 is
  written out only where the code observes it, in the truth value of a float.
\<close>

datatype pyfloat = Finite rat | PosInf | NegInf | NaN

datatype pyval =
    PNone
  | PBool bool
  | PInt int
  | PFloat pyfloat
  | PStr string
  | PList "pyval list"
  | PDict "(string \<times> pyval) list"

text \<open>
  The exceptions that occur. \<open>Unrepresentable\<close> is no Python exception: it marks a
  text whose value has a character above U+00FF, which \<^typ>\<open>char\<close> does not have.
\<close>

datatype error =
  TypeError | ValueError | RuntimeError | RecursionError | JSONDecodeError | Unrepresentable

text \<open>
  A binary64 float is zero exactly when the number it was rounded from is at most half
  the smallest subnormal, \<open>2\<^sup>-\<^sup>1\<^sup>0\<^sup>7\<^sup>5\<close>, in absolute value (the tie goes to the even
  neighbour, which is zero).
\<close>

fun float_is_zero :: "pyfloat \<Rightarrow> bool" where
  "float_is_zero (Finite q) = (\<bar>q\<bar> \<le> 1 / 2 ^ 1075)"
| "float_is_zero _ = False"

text \<open>Python's truth value testing, as \<^verbatim>\<open>not x\<close> and \<^verbatim>\<open>x or y\<close> use it.\<close>

fun truthy :: "pyval \<Rightarrow> bool" where
  "truthy PNone = False"
| "truthy (PBool b) = b"
| "truthy (PInt i) = (i \<noteq> 0)"
| "truthy (PFloat f) = (\<not> float_is_zero f)"
| "truthy (PStr s) = (s \<noteq> [])"
| "truthy (PList xs) = (xs \<noteq> [])"
| "truthy (PDict kvs) = (kvs \<noteq> [])"

definition py_or :: "pyval \<Rightarrow> pyval \<Rightarrow> pyval" where
  "py_or a b = (if truthy a then a else b)"

text \<open>\<^verbatim>\<open>d.get(k)\<close>: the value under \<open>k\<close>, \<^verbatim>\<open>None\<close> when the key is missing.\<close>

definition dict_get :: "(string \<rightharpoonup> pyval) \<Rightarrow> string \<Rightarrow> pyval" where
  "dict_get d k = (case d k of None \<Rightarrow> PNone | Some v \<Rightarrow> v)"

section \<open>Paths\<close>

text \<open>
  A \<^verbatim>\<open>pathlib\<close> POSIX path is its anchor (\<open>''/''\<close>, \<open>''//''\<close>, or empty for a relative
  path) and the list of its components; two paths are equal when both agree.
  \<^verbatim>\<open>target.parents\<close> is the sequence whose \<open>i\<close>-th entry drops the last \<open>i + 1\<close>
  components, one entry for each component.
\<close>

datatype path = PosixPath (anchor: string) (parts: "string list")

definition parents :: "path \<Rightarrow> path list" where
  "parents p =
     map (\<lambda>i. PosixPath (anchor p) (take (length (parts p) - i - 1) (parts p)))
         [0 ..< length (parts p)]"

text \<open>
  What the specification calls a proper descendant: \<open>t\<close> lies strictly below \<open>p\<close>
  when both have the same anchor and the components of \<open>p\<close> are a proper initial
  segment of those of \<open>t\<close>.
\<close>

definition proper_descendant :: "path \<Rightarrow> path \<Rightarrow> bool" where
  "proper_descendant t p \<longleftrightarrow> anchor t = anchor p \<and> strict_prefix (parts p) (parts t)"

text \<open>
  \<^verbatim>\<open>Path(path_str)\<close> accepts a string and raises \<^verbatim>\<open>TypeError\<close> on every other
  JSON value. \<^verbatim>\<open>.resolve()\<close> asks the file system (working directory, symbolic
  links) and is a parameter \<open>resolve\<close> of the model; it may raise, on an embedded
  NUL or a symbolic-link loop.
\<close>

fun Path :: "pyval \<Rightarrow> error + string" where
  "Path (PStr s) = Inr s"
| "Path _ = Inl TypeError"

type_synonym resolver = "string \<Rightarrow> error + path"

section \<open>The agent and its permission handler\<close>

record agent =
  base_dir :: string
  model_name :: string
  readable_paths :: "path set"
  writable_paths :: "path set"

datatype permission_result = PermissionResultAllow | PermissionResultDeny (message: string)

text \<open>
  \<^verbatim>\<open>
  def _is_subpath(self, target, whitelist):
      return any(target == p or p in target.parents for p in whitelist)
  \<close>
\<close>

definition is_subpath :: "path \<Rightarrow> path set \<Rightarrow> bool" where
  "is_subpath target whitelist \<longleftrightarrow> (\<exists>p \<in> whitelist. target = p \<or> p \<in> set (parents target))"

text \<open>
  The guard of both branches of the handler,
  \<^verbatim>\<open>len(scope) == 0 or self._is_subpath(target_path, scope)\<close>. A Python set is
  finite, so its length is zero exactly when it is empty.
\<close>

definition in_scope :: "path \<Rightarrow> path set \<Rightarrow> bool" where
  "in_scope target scope \<longleftrightarrow> scope = {} \<or> is_subpath target scope"

text \<open>
  \<^verbatim>\<open>
  path_str = tool_input.get("file_path") or tool_input.get("path")
  if not path_str:
      return PermissionResultAllow(behavior="allow")
  target_path = Path(path_str).resolve()
  if tool_name in ["Read", "Grep", "Glob"]:
      if len(self.readable_paths) == 0 or self._is_subpath(target_path, self.readable_paths):
          return PermissionResultAllow(behavior="allow")
      msg = f"Access Denied: {path_str} is not in readable whitelist."
      return PermissionResultDeny(behavior="deny", message=msg)
  if tool_name in ["Write", "Edit", "MultiEdit"]:
      if len(self.writable_paths) == 0 or self._is_subpath(target_path, self.writable_paths):
          return PermissionResultAllow(behavior="allow")
      msg = f"Access Denied: {path_str} is not in writable whitelist."
      return PermissionResultDeny(behavior="deny", message=msg)
  return PermissionResultAllow(behavior="allow")
  \<close>
  The \<^verbatim>\<open>context\<close> argument is never read and is left out.
\<close>

definition permission_handler ::
  "resolver \<Rightarrow> agent \<Rightarrow> string \<Rightarrow> (string \<rightharpoonup> pyval) \<Rightarrow> error + permission_result" where
  "permission_handler resolve self tool_name tool_input =
     (let path_str = py_or (dict_get tool_input ''file_path'') (dict_get tool_input ''path'') in
      if \<not> truthy path_str then Inr PermissionResultAllow
      else case Path path_str of
        Inl e \<Rightarrow> Inl e
      | Inr s \<Rightarrow>
          (case resolve s of
             Inl e \<Rightarrow> Inl e
           | Inr target_path \<Rightarrow>
               if tool_name \<in> set [''Read'', ''Grep'', ''Glob''] then
                 if in_scope target_path (readable_paths self)
                 then Inr PermissionResultAllow
                 else Inr (PermissionResultDeny
                             (''Access Denied: '' @ s @ '' is not in readable whitelist.''))
               else if tool_name \<in> set [''Write'', ''Edit'', ''MultiEdit''] then
                 if in_scope target_path (writable_paths self)
                 then Inr PermissionResultAllow
                 else Inr (PermissionResultDeny
                             (''Access Denied: '' @ s @ '' is not in writable whitelist.''))
               else Inr PermissionResultAllow))"

text \<open>
  A file system without symbolic links, for concrete runs: \<open>resolve_in cwd\<close> makes a
  path absolute against the working directory \<open>cwd\<close> and removes empty, \<open>.\<close> and
  \<open>..\<close> components as \<^verbatim>\<open>os.path.realpath\<close> does there. A string with a NUL
  raises \<^verbatim>\<open>ValueError\<close>.
\<close>

fun split_slash :: "string \<Rightarrow> string \<Rightarrow> string list" where
  "split_slash acc [] = [rev acc]"
| "split_slash acc (c # cs) =
     (if c = CHR ''/'' then rev acc # split_slash [] cs else split_slash (c # acc) cs)"

fun normalise :: "string list \<Rightarrow> string list \<Rightarrow> string list" where
  "normalise stack [] = rev stack"
| "normalise stack (c # cs) =
     (if c = [] \<or> c = ''.'' then normalise stack cs
      else if c = ''..'' then normalise (tl stack) cs
      else normalise (c # stack) cs)"

definition resolve_in :: "string list \<Rightarrow> resolver" where
  "resolve_in cwd s =
     (if CHR 0x00 \<in> set s then Inl ValueError
      else if take 1 s = ''/'' then
        Inr (PosixPath (if take 2 s = ''//'' \<and> take 3 s \<noteq> ''///'' then ''//'' else ''/'')
                       (normalise [] (split_slash [] s)))
      else Inr (PosixPath ''/'' (normalise (rev cwd) (split_slash [] s))))"


section \<open>The message stream\<close>

text \<open>
  The messages of the agent SDK that \<^verbatim>\<open>run\<close> tells apart. The content of a tool
  result is a string, a list of blocks (dictionaries) or \<^verbatim>\<open>None\<close>; its error flag is
  a boolean or \<^verbatim>\<open>None\<close>. The input of a tool use is a dictionary in insertion order.
  A result message carries \<^verbatim>\<open>structured_output\<close> (any value, \<^verbatim>\<open>None\<close> when absent)
  and \<^verbatim>\<open>result\<close> (a string or \<^verbatim>\<open>None\<close>).
\<close>

datatype tool_content = ContentStr string | ContentList "pyval list" | ContentNone

datatype block =
    ToolUseBlock string "(string \<times> pyval) list"
  | TextBlock string
  | ToolResultBlock tool_content "bool option"
  | ThinkingBlock string

datatype user_content = UserStr string | UserBlocks "block list"

datatype message =
    AssistantMessage "block list"
  | UserMessage user_content
  | ResultMessage pyval "string option"
  | SystemMessage

subsection \<open>Rendering a tool result\<close>

text \<open>\<^verbatim>\<open>display.replace("\n", "\\n")\<close>: every newline becomes a backslash and an \<open>n\<close>.\<close>

definition replace_newlines :: "string \<Rightarrow> string" where
  "replace_newlines s = concat (map (\<lambda>c. if c = CHR 0x0A then [CHR 0x5C, CHR ''n''] else [c]) s)"

text \<open>
  \<^verbatim>\<open>str(content)\<close> of a content that is no string: \<^verbatim>\<open>None\<close> prints as its name, a
  list prints as its \<^verbatim>\<open>repr\<close>, which is a parameter \<open>repr\<close> of the model (Python's
  formatting of nested values and floats).
\<close>

fun str_of_content :: "(pyval \<Rightarrow> string) \<Rightarrow> tool_content \<Rightarrow> string" where
  "str_of_content repr (ContentStr s) = s"
| "str_of_content repr (ContentList bs) = repr (PList bs)"
| "str_of_content repr ContentNone = ''None''"

text \<open>
  \<^verbatim>\<open>
  content = content_block.content
  if isinstance(content, str):
      if len(content) > 200:
          display = content[:100] + "..." + content[-100:]
      else:
          display = content
      display = display.replace("\n", "\\n")
  else:
      content_str = str(content)
      display = content_str[:100] + "..." + content_str[-100:]
  status = "ERROR" if content_block.is_error else "OK"
  print(f"  -> [{status}] {display}")
  \<close>
  The slice \<^verbatim>\<open>s[-100:]\<close> is the last hundred characters, or all of \<open>s\<close> when it is
  shorter.
\<close>

definition last100 :: "string \<Rightarrow> string" where
  "last100 s = drop (length s - 100) s"

fun display :: "(pyval \<Rightarrow> string) \<Rightarrow> tool_content \<Rightarrow> string" where
  "display repr (ContentStr content) =
     replace_newlines
       (if length content > 200 then take 100 content @ ''...'' @ last100 content else content)"
| "display repr content =
     (let content_str = str_of_content repr content
      in take 100 content_str @ ''...'' @ last100 content_str)"

definition status :: "bool option \<Rightarrow> string" where
  "status is_error = (if is_error = Some True then ''ERROR'' else ''OK'')"

definition tool_result_line :: "(pyval \<Rightarrow> string) \<Rightarrow> tool_content \<Rightarrow> bool option \<Rightarrow> string" where
  "tool_result_line repr content is_error =
     ''  -> ['' @ status is_error @ ''] '' @ display repr content"

subsection \<open>Rendering a tool use\<close>

text \<open>
  \<^verbatim>\<open>
  args_str = ", ".join(f"{k}={repr(v)[:50]}" for k, v in block.input.items())
  print(f"[TOOL] {block.name}({args_str})")
  \<close>
\<close>

fun join :: "string \<Rightarrow> string list \<Rightarrow> string" where
  "join sep [] = []"
| "join sep [x] = x"
| "join sep (x # y # ys) = x @ sep @ join sep (y # ys)"

definition tool_use_line :: "(pyval \<Rightarrow> string) \<Rightarrow> string \<Rightarrow> (string \<times> pyval) list \<Rightarrow> string" where
  "tool_use_line repr name input =
     ''[TOOL] '' @ name @ ''('' @
       join '', '' (map (\<lambda>(k, v). k @ ''='' @ take 50 (repr v)) input) @ '')''"

section \<open>Result extraction\<close>

subsection \<open>The regular expression of the fenced block\<close>

text \<open>
  Whitespace as \<^verbatim>\<open>str.strip\<close> and the class \<^verbatim>\<open>\s\<close> of \<^verbatim>\<open>re\<close> understand it, on
  the code points up to U+00FF that a \<^typ>\<open>char\<close> holds.
\<close>

definition isspace :: "char \<Rightarrow> bool" where
  "isspace c \<longleftrightarrow>
     c \<in> set [CHR 0x09, CHR 0x0A, CHR 0x0B, CHR 0x0C, CHR 0x0D, CHR 0x1C, CHR 0x1D, CHR 0x1E,
              CHR 0x1F, CHR 0x20, CHR 0x85, CHR 0xA0]"

definition strip :: "string \<Rightarrow> string" where
  "strip s = rev (dropWhile isspace (rev (dropWhile isspace s)))"

text \<open>
  The pattern \<^verbatim>\<open>```(?:json)?\s*\n?(.*?)\n?```\<close> is a sequence of five kinds of item: a
  literal, an optional literal (greedy), a greedy repetition of a character class, and
  the one capturing group, a lazy repetition of any character (the flag
  \<^verbatim>\<open>re.DOTALL\<close> lets the dot match a newline). \<open>match_here\<close> is the backtracking
  matcher of \<^verbatim>\<open>re\<close> on such sequences: a greedy item first tries to take more, a lazy
  one first tries to take less, and the first complete match wins. It returns the text
  of the group.
\<close>

datatype item = Lit string | Opt string | Star "char \<Rightarrow> bool" | LazyGroup

fun match_here :: "item list \<Rightarrow> string \<Rightarrow> string option" where
  "match_here [] s = Some []"
| "match_here (Lit w # items) s =
     (if prefix w s then match_here items (drop (length w) s) else None)"
| "match_here (Opt w # items) s =
     (if prefix w s then
        (case match_here items (drop (length w) s) of
           Some g \<Rightarrow> Some g
         | None \<Rightarrow> match_here items s)
      else match_here items s)"
| "match_here (Star P # items) [] = match_here items []"
| "match_here (Star P # items) (c # cs) =
     (if P c then
        (case match_here (Star P # items) cs of
           Some g \<Rightarrow> Some g
         | None \<Rightarrow> match_here items (c # cs))
      else match_here items (c # cs))"
| "match_here (LazyGroup # items) [] =
     (case match_here items [] of Some _ \<Rightarrow> Some [] | None \<Rightarrow> None)"
| "match_here (LazyGroup # items) (c # cs) =
     (case match_here items (c # cs) of
        Some _ \<Rightarrow> Some []
      | None \<Rightarrow> map_option ((#) c) (match_here (LazyGroup # items) cs))"

text \<open>\<^verbatim>\<open>re.search\<close>: the match at the leftmost position that has one.\<close>

fun re_search :: "item list \<Rightarrow> string \<Rightarrow> string option" where
  "re_search items [] = match_here items []"
| "re_search items (c # cs) =
     (case match_here items (c # cs) of
        Some g \<Rightarrow> Some g
      | None \<Rightarrow> re_search items cs)"

definition fence_pattern :: "item list" where
  "fence_pattern =
     [Lit ''```'', Opt ''json'', Star isspace, Opt [CHR 0x0A], LazyGroup, Opt [CHR 0x0A],
      Lit ''```'']"

subsection \<open>The fallback ladder\<close>

text \<open>
  \<^verbatim>\<open>json.loads\<close> is the parameter \<open>loads\<close>: a function from a string to a value
  or an exception. The code catches \<^verbatim>\<open>json.JSONDecodeError\<close> and nothing else, so
  any other exception leaves \<^verbatim>\<open>_parse_result_json\<close>.
  \<^verbatim>\<open>
  json_match = re.search(r"```(?:json)?\s*\n?(.*?)\n?```", result, re.DOTALL)
  if json_match:
      try:
          return json.loads(json_match.group(1).strip())
      except json.JSONDecodeError:
          pass
  try:
      return json.loads(result.strip())
  except json.JSONDecodeError:
      pass
  return {"status": True, "summary": result[:500], "insights": ""}
  \<close>
\<close>

type_synonym loader = "string \<Rightarrow> error + pyval"

definition basic_result :: "string \<Rightarrow> pyval" where
  "basic_result result =
     PDict [(''status'', PBool True), (''summary'', PStr (take 500 result)),
            (''insights'', PStr '''')]"

definition parse_raw_json :: "loader \<Rightarrow> string \<Rightarrow> error + pyval" where
  "parse_raw_json loads result =
     (case loads (strip result) of
        Inr v \<Rightarrow> Inr v
      | Inl JSONDecodeError \<Rightarrow> Inr (basic_result result)
      | Inl e \<Rightarrow> Inl e)"

definition parse_result_json :: "loader \<Rightarrow> string \<Rightarrow> error + pyval" where
  "parse_result_json loads result =
     (case re_search fence_pattern result of
        Some g \<Rightarrow>
          (case loads (strip g) of
             Inr v \<Rightarrow> Inr v
           | Inl JSONDecodeError \<Rightarrow> parse_raw_json loads result
           | Inl e \<Rightarrow> Inl e)
      | None \<Rightarrow> parse_raw_json loads result)"

subsection \<open>The loop of \<^verbatim>\<open>run\<close>\<close>

text \<open>
  The state of the loop is what was printed so far, one line for each \<^verbatim>\<open>print\<close>,
  and \<^verbatim>\<open>final_result\<close>, which starts as \<^verbatim>\<open>None\<close>.
  \<^verbatim>\<open>
  elif isinstance(message, ResultMessage):
      if message.structured_output is not None:
          final_result = message.structured_output
      elif message.result:
          final_result = self._parse_result_json(message.result)
  \<close>
\<close>

record run_state =
  printed :: "string list"
  final_result :: pyval

fun assistant_block :: "(pyval \<Rightarrow> string) \<Rightarrow> block \<Rightarrow> string list" where
  "assistant_block repr (ToolUseBlock name input) = [tool_use_line repr name input]"
| "assistant_block repr (TextBlock text) = [''Claude: '' @ text]"
| "assistant_block repr _ = []"

fun user_block :: "(pyval \<Rightarrow> string) \<Rightarrow> block \<Rightarrow> string list" where
  "user_block repr (ToolResultBlock content is_error) = [tool_result_line repr content is_error]"
| "user_block repr _ = []"

fun handle_message ::
  "loader \<Rightarrow> (pyval \<Rightarrow> string) \<Rightarrow> run_state \<Rightarrow> message \<Rightarrow> error + run_state" where
  "handle_message loads repr st (AssistantMessage blocks) =
     Inr (st\<lparr>printed := printed st @ concat (map (assistant_block repr) blocks)\<rparr>)"
| "handle_message loads repr st (UserMessage (UserBlocks blocks)) =
     Inr (st\<lparr>printed := printed st @ concat (map (user_block repr) blocks)\<rparr>)"
| "handle_message loads repr st (UserMessage (UserStr text)) = Inr st"
| "handle_message loads repr st (ResultMessage out res) =
     (if out \<noteq> PNone then Inr (st\<lparr>final_result := out\<rparr>)
      else case res of
        None \<Rightarrow> Inr st
      | Some r \<Rightarrow>
          if r \<noteq> [] then
            (case parse_result_json loads r of
               Inl e \<Rightarrow> Inl e
             | Inr v \<Rightarrow> Inr (st\<lparr>final_result := v\<rparr>))
          else Inr st)"
| "handle_message loads repr st SystemMessage = Inr st"

fun run_from ::
  "loader \<Rightarrow> (pyval \<Rightarrow> string) \<Rightarrow> run_state \<Rightarrow> message list \<Rightarrow> error + run_state" where
  "run_from loads repr st [] = Inr st"
| "run_from loads repr st (m # ms) =
     (case handle_message loads repr st m of
        Inl e \<Rightarrow> Inl e
      | Inr st' \<Rightarrow> run_from loads repr st' ms)"

text \<open>
  \<^verbatim>\<open>run\<close> consumes the stream of messages that the SDK produces for the task and
  returns \<^verbatim>\<open>final_result\<close>; the stream is an argument of the model.
\<close>

definition run :: "loader \<Rightarrow> (pyval \<Rightarrow> string) \<Rightarrow> message list \<Rightarrow> error + pyval" where
  "run loads repr messages =
     (case run_from loads repr \<lparr>printed = [], final_result = PNone\<rparr> messages of
        Inl e \<Rightarrow> Inl e
      | Inr st \<Rightarrow> Inr (final_result st))"

text \<open>
  The extraction of the specification: the result of a run whose stream is one terminal
  message with the given payload.
\<close>

definition extract_result :: "loader \<Rightarrow> pyval \<Rightarrow> string option \<Rightarrow> error + pyval" where
  "extract_result loads out res = run loads (\<lambda>v. []) [ResultMessage out res]"

subsection \<open>Notions of the specification\<close>

text \<open>
  What the specification calls a TaskResult: a record with the fields
  \<open>status: bool\<close>, \<open>summary: string\<close> and \<open>insights: string\<close>.
\<close>

fun is_task_result :: "pyval \<Rightarrow> bool" where
  "is_task_result (PDict d) =
     ((case map_of d ''status'' of Some (PBool b) \<Rightarrow> True | _ \<Rightarrow> False) \<and>
      (case map_of d ''summary'' of Some (PStr s) \<Rightarrow> True | _ \<Rightarrow> False) \<and>
      (case map_of d ''insights'' of Some (PStr s) \<Rightarrow> True | _ \<Rightarrow> False))"
| "is_task_result _ = False"


section \<open>A decoder for concrete runs\<close>

text \<open>
  \<open>json_loads\<close> follows the decoder of Python's \<^verbatim>\<open>json\<close> module
  (\<^verbatim>\<open>JSONDecoder.decode\<close>, \<^verbatim>\<open>scan_once\<close>, \<^verbatim>\<open>JSONArray\<close>, \<^verbatim>\<open>JSONObject\<close>,
  \<^verbatim>\<open>py_scanstring\<close>, \<^verbatim>\<open>NUMBER_RE\<close>) on strings of code points up to U+00FF. It
  serves as the \<open>loads\<close> of the concrete runs below; the general statements hold for
  every \<open>loads\<close>. Every syntax error is \<^verbatim>\<open>JSONDecodeError\<close>; its message and
  position are not kept.
\<close>

definition json_ws :: "char \<Rightarrow> bool" where
  "json_ws c \<longleftrightarrow> c \<in> set [CHR 0x20, CHR 0x09, CHR 0x0A, CHR 0x0D]"

definition skip_ws :: "string \<Rightarrow> string" where
  "skip_ws = dropWhile json_ws"

definition is_digit :: "char \<Rightarrow> bool" where
  "is_digit c \<longleftrightarrow> c \<in> set ''0123456789''"

definition digits_val :: "string \<Rightarrow> nat" where
  "digits_val ds = foldl (\<lambda>a c. 10 * a + (of_char c - 48)) 0 ds"

subsection \<open>Numbers\<close>

text \<open>
  \<^verbatim>\<open>NUMBER_RE = (-?(?:0|[1-9]\d*))(\.\d+)?([eE][-+]?\d+)?\<close>. A literal without
  fraction and exponent is an \<^verbatim>\<open>int\<close>; any other is a \<^verbatim>\<open>float\<close>, which overflows
  to an infinity from \<open>(2 - 2\<^sup>-\<^sup>5\<^sup>3) \<sqdot> 2\<^sup>1\<^sup>0\<^sup>2\<^sup>3\<close> on.
\<close>

definition scan_frac :: "string \<Rightarrow> string \<times> string" where
  "scan_frac s =
     (case s of
        c # d # r \<Rightarrow>
          if c = CHR ''.'' \<and> is_digit d then (d # takeWhile is_digit r, dropWhile is_digit r)
          else ([], s)
      | _ \<Rightarrow> ([], s))"

definition scan_exp :: "string \<Rightarrow> (int \<times> string) option" where
  "scan_exp s =
     (case s of
        [] \<Rightarrow> None
      | e # r \<Rightarrow>
          if e = CHR ''e'' \<or> e = CHR ''E'' then
            (case r of
               [] \<Rightarrow> None
             | c # r' \<Rightarrow>
                 if is_digit c then
                   Some (int (digits_val (c # takeWhile is_digit r')), dropWhile is_digit r')
                 else if (c = CHR ''-'' \<or> c = CHR ''+'') \<and> r' \<noteq> [] \<and> is_digit (hd r') then
                   Some ((if c = CHR ''-'' then - 1 else 1) * int (digits_val (takeWhile is_digit r')),
                         dropWhile is_digit r')
                 else None)
          else None)"

definition make_float :: "rat \<Rightarrow> pyfloat" where
  "make_float q =
     (if (2 - 1 / 2 ^ 53) * 2 ^ 1023 \<le> q then PosInf
      else if q \<le> - ((2 - 1 / 2 ^ 53) * 2 ^ 1023) then NegInf
      else Finite q)"

definition scale10 :: "rat \<Rightarrow> int \<Rightarrow> rat" where
  "scale10 q e = (if 0 \<le> e then q * 10 ^ nat e else q / 10 ^ nat (- e))"

definition scan_number :: "string \<Rightarrow> (pyval \<times> string) option" where
  "scan_number s =
     (let negative = (take 1 s = ''-'');
          s1 = (if negative then drop 1 s else s)
      in case s1 of
           [] \<Rightarrow> None
         | d # r \<Rightarrow>
             if \<not> is_digit d then None
             else
               let ds = (if d = CHR ''0'' then [d] else d # takeWhile is_digit r);
                   s2 = (if d = CHR ''0'' then r else dropWhile is_digit r);
                   (fs, s3) = scan_frac s2;
                   sign = (if negative then - 1 else 1)
               in case scan_exp s3 of
                    None \<Rightarrow>
                      if fs = [] then Some (PInt (sign * int (digits_val ds)), s3)
                      else Some (PFloat (make_float
                                   (of_int sign * scale10 (of_nat (digits_val (ds @ fs)))
                                                          (- int (length fs)))), s3)
                  | Some (e, s4) \<Rightarrow>
                      Some (PFloat (make_float
                              (of_int sign * scale10 (of_nat (digits_val (ds @ fs)))
                                                     (e - int (length fs)))), s4))"

subsection \<open>Strings\<close>

text \<open>
  The escapes of \<^verbatim>\<open>py_scanstring\<close>. A \<^verbatim>\<open>\uXXXX\<close> escape above U+00FF denotes a
  character that \<^typ>\<open>char\<close> does not have; there the decoder stops with
  \<open>Unrepresentable\<close>.
\<close>

definition backslash :: "char \<Rightarrow> char option" where
  "backslash e =
     map_of [(CHR 0x22, CHR 0x22), (CHR 0x5C, CHR 0x5C), (CHR ''/'', CHR ''/''),
             (CHR ''b'', CHR 0x08), (CHR ''f'', CHR 0x0C), (CHR ''n'', CHR 0x0A),
             (CHR ''r'', CHR 0x0D), (CHR ''t'', CHR 0x09)] e"

definition hex_val :: "char \<Rightarrow> nat option" where
  "hex_val c =
     (if is_digit c then Some (of_char c - 48)
      else if c \<in> set ''abcdef'' then Some (of_char c - 87)
      else if c \<in> set ''ABCDEF'' then Some (of_char c - 55)
      else None)"

definition decode_uXXXX :: "string \<Rightarrow> nat option" where
  "decode_uXXXX s =
     (case map hex_val (take 4 s) of
        [Some a, Some b, Some c, Some d] \<Rightarrow> Some (((a * 16 + b) * 16 + c) * 16 + d)
      | _ \<Rightarrow> None)"

fun scanstring :: "string \<Rightarrow> string \<Rightarrow> error + (string \<times> string)" where
  "scanstring acc [] = Inl JSONDecodeError"
| "scanstring acc [c] = (if c = CHR 0x22 then Inr (rev acc, []) else Inl JSONDecodeError)"
| "scanstring acc (c # e # r) =
     (if c = CHR 0x22 then Inr (rev acc, e # r)
      else if c = CHR 0x5C then
        (if e = CHR ''u'' then
           (case decode_uXXXX r of
              None \<Rightarrow> Inl JSONDecodeError
            | Some n \<Rightarrow>
                if n < 256 then scanstring (char_of n # acc) (drop 4 r) else Inl Unrepresentable)
         else
           (case backslash e of
              None \<Rightarrow> Inl JSONDecodeError
            | Some ch \<Rightarrow> scanstring (ch # acc) r))
      else if (of_char c :: nat) < 32 then Inl JSONDecodeError
      else scanstring (c # acc) (e # r))"

subsection \<open>Values\<close>

text \<open>\<^verbatim>\<open>dict(pairs)\<close>: a later pair replaces the value of an earlier one with its key.\<close>

fun dict_set :: "string \<Rightarrow> pyval \<Rightarrow> (string \<times> pyval) list \<Rightarrow> (string \<times> pyval) list" where
  "dict_set k v [] = [(k, v)]"
| "dict_set k v ((k', v') # d) = (if k' = k then (k, v) # d else (k', v') # dict_set k v d)"

definition dict_of_pairs :: "(string \<times> pyval) list \<Rightarrow> (string \<times> pyval) list" where
  "dict_of_pairs pairs = foldl (\<lambda>d (k, v). dict_set k v d) [] pairs"

text \<open>
  The three mutually recursive scanners take a bound on the number of calls still
  allowed and raise \<^verbatim>\<open>RecursionError\<close> when it runs out. \<open>array_items\<close> and \<open>object_items\<close> are
  the loops of \<^verbatim>\<open>JSONArray\<close> and \<^verbatim>\<open>JSONObject\<close>, entered after the look-ahead for
  the empty case; \<open>object_items\<close> starts behind the opening quote of a key.
\<close>

fun scan_once :: "nat \<Rightarrow> string \<Rightarrow> error + (pyval \<times> string)"
  and array_items :: "nat \<Rightarrow> pyval list \<Rightarrow> string \<Rightarrow> error + (pyval \<times> string)"
  and object_items ::
    "nat \<Rightarrow> (string \<times> pyval) list \<Rightarrow> string \<Rightarrow> error + (pyval \<times> string)" where
  "scan_once 0 s = Inl RecursionError"
| "scan_once (Suc n) [] = Inl JSONDecodeError"
| "scan_once (Suc n) (c # cs) =
     (if c = CHR 0x22 then
        (case scanstring [] cs of Inl e \<Rightarrow> Inl e | Inr (str, r) \<Rightarrow> Inr (PStr str, r))
      else if c = CHR ''{'' then
        (case skip_ws cs of
           [] \<Rightarrow> Inl JSONDecodeError
         | d # r \<Rightarrow>
             if d = CHR ''}'' then Inr (PDict [], r)
             else if d = CHR 0x22 then object_items n [] r
             else Inl JSONDecodeError)
      else if c = CHR ''['' then
        (case skip_ws cs of
           [] \<Rightarrow> Inl JSONDecodeError
         | d # r \<Rightarrow> if d = CHR '']'' then Inr (PList [], r) else array_items n [] (d # r))
      else if prefix ''null'' (c # cs) then Inr (PNone, drop 4 (c # cs))
      else if prefix ''true'' (c # cs) then Inr (PBool True, drop 4 (c # cs))
      else if prefix ''false'' (c # cs) then Inr (PBool False, drop 5 (c # cs))
      else case scan_number (c # cs) of
        Some res \<Rightarrow> Inr res
      | None \<Rightarrow>
          if prefix ''NaN'' (c # cs) then Inr (PFloat NaN, drop 3 (c # cs))
          else if prefix ''Infinity'' (c # cs) then Inr (PFloat PosInf, drop 8 (c # cs))
          else if prefix ''-Infinity'' (c # cs) then Inr (PFloat NegInf, drop 9 (c # cs))
          else Inl JSONDecodeError)"
| "array_items 0 acc s = Inl RecursionError"
| "array_items (Suc n) acc s =
     (case scan_once n s of
        Inl e \<Rightarrow> Inl e
      | Inr (v, r) \<Rightarrow>
          (case skip_ws r of
             [] \<Rightarrow> Inl JSONDecodeError
           | d # r' \<Rightarrow>
               if d = CHR '']'' then Inr (PList (rev (v # acc)), r')
               else if d = CHR '','' then array_items n (v # acc) (skip_ws r')
               else Inl JSONDecodeError))"
| "object_items 0 acc s = Inl RecursionError"
| "object_items (Suc n) acc s =
     (case scanstring [] s of
        Inl e \<Rightarrow> Inl e
      | Inr (key, r) \<Rightarrow>
          (case skip_ws r of
             [] \<Rightarrow> Inl JSONDecodeError
           | d # r1 \<Rightarrow>
               if d \<noteq> CHR '':'' then Inl JSONDecodeError
               else
                 (case scan_once n (skip_ws r1) of
                    Inl e \<Rightarrow> Inl e
                  | Inr (v, r2) \<Rightarrow>
                      (case skip_ws r2 of
                         [] \<Rightarrow> Inl JSONDecodeError
                       | d' # r3 \<Rightarrow>
                           if d' = CHR ''}'' then
                             Inr (PDict (dict_of_pairs (rev ((key, v) # acc))), r3)
                           else if d' = CHR '','' then
                             (case skip_ws r3 of
                                [] \<Rightarrow> Inl JSONDecodeError
                              | q # r4 \<Rightarrow>
                                  if q = CHR 0x22 then object_items n ((key, v) # acc) r4
                                  else Inl JSONDecodeError)
                           else Inl JSONDecodeError))))"

text \<open>
  \<^verbatim>\<open>decode\<close>: skip whitespace, scan one value, skip whitespace, and fail on extra
  data. Each call of a scanner consumes a character before the next one starts, so
  twice the length of the text bounds the calls. The interpreter's own bound on nested
  calls, the recursion limit, is not modelled.
\<close>

definition json_loads :: "string \<Rightarrow> error + pyval" where
  "json_loads s =
     (case scan_once (2 * length s + 2) (skip_ws s) of
        Inl e \<Rightarrow> Inl e
      | Inr (v, r) \<Rightarrow> if skip_ws r = [] then Inr v else Inl JSONDecodeError)"

section \<open>Containment\<close>

lemma parents_iff: "q \<in> set (parents t) \<longleftrightarrow> proper_descendant t q"
proof
  assume "q \<in> set (parents t)"
  then obtain i where i: "i < length (parts t)"
    and q: "q = PosixPath (anchor t) (take (length (parts t) - i - 1) (parts t))"
    by (auto simp: parents_def)
  have "prefix (take (length (parts t) - i - 1) (parts t)) (parts t)"
    by (rule take_is_prefix)
  moreover have "length (take (length (parts t) - i - 1) (parts t)) < length (parts t)"
    using i by simp
  ultimately have "strict_prefix (take (length (parts t) - i - 1) (parts t)) (parts t)"
    by (auto simp: strict_prefix_def)
  with q show "proper_descendant t q"
    by (simp add: proper_descendant_def)
next
  assume d: "proper_descendant t q"
  then have r: "anchor q = anchor t" and sp: "strict_prefix (parts q) (parts t)"
    by (simp_all add: proper_descendant_def)
  from sp obtain z zs where e: "parts t = parts q @ z # zs"
    by (auto elim: strict_prefixE')
  let ?i = "length zs"
  have "?i < length (parts t)" using e by simp
  moreover have "take (length (parts t) - ?i - 1) (parts t) = parts q"
    using e by simp
  ultimately have "PosixPath (anchor t) (parts q) \<in> set (parents t)"
    unfolding parents_def set_map by (metis (mono_tags, lifting) atLeast0LessThan image_eqI lessThan_iff set_upt)
  moreover have "q = PosixPath (anchor t) (parts q)"
    using r by (cases q) simp
  ultimately show "q \<in> set (parents t)" by simp
qed

text \<open>
  C1. For every resolved target path and every scope, the guard
  \<^verbatim>\<open>len(scope) == 0 or _is_subpath(target, scope)\<close> holds exactly when the scope is
  empty, or the target is a member of the scope, or the target is a proper descendant
  of a member of the scope.
\<close>

theorem in_scope_iff:
  "in_scope t S \<longleftrightarrow> S = {} \<or> t \<in> S \<or> (\<exists>p \<in> S. proper_descendant t p)"
  unfolding in_scope_def is_subpath_def parents_iff by blast

theorem in_scope_iff_witness:
  "in_scope (PosixPath ''/'' [''data'', ''src'', ''a.py'']) {PosixPath ''/'' [''data'']}
   \<and> \<not> in_scope (PosixPath ''/'' [''database'']) {PosixPath ''/'' [''data'']}
   \<and> in_scope (PosixPath ''/'' [''etc'']) {}"
  using in_scope_iff [of "PosixPath ''/'' [''data'', ''src'', ''a.py'']" "{PosixPath ''/'' [''data'']}"]
        in_scope_iff [of "PosixPath ''/'' [''database'']" "{PosixPath ''/'' [''data'']}"]
        in_scope_iff [of "PosixPath ''/'' [''etc'']" "{}"]
  by (simp add: proper_descendant_def)

section \<open>Decisions of the permission handler\<close>

lemma in_scope_nonempty:
  "S \<noteq> {} \<Longrightarrow> in_scope t S \<longleftrightarrow> t \<in> S \<or> (\<exists>p \<in> S. proper_descendant t p)"
  unfolding in_scope_def is_subpath_def parents_iff by blast

lemma path_str_file_path:
  "P \<noteq> [] \<Longrightarrow> py_or (dict_get [''file_path'' \<mapsto> PStr P] ''file_path'')
                       (dict_get [''file_path'' \<mapsto> PStr P] ''path'') = PStr P"
  by (simp add: py_or_def dict_get_def)

text \<open>
  C2, counterexample. The read scope is \<open>{/data}\<close>, the working directory is
  \<open>/home\<close> and the path string is empty: it resolves to \<open>/home\<close>, which is neither
  \<open>/data\<close> nor below it, and \<^verbatim>\<open>Read\<close> is allowed all the same, because the empty
  string is falsy and the handler returns before any check.
\<close>

theorem empty_path_string_counterexample:
  "resolve_in [''home''] '''' = Inr (PosixPath ''/'' [''home''])
   \<and> PosixPath ''/'' [''home''] \<noteq> PosixPath ''/'' [''data'']
   \<and> \<not> proper_descendant (PosixPath ''/'' [''home'']) (PosixPath ''/'' [''data''])
   \<and> permission_handler (resolve_in [''home''])
        \<lparr>base_dir = ''/home'', model_name = ''m'',
         readable_paths = {PosixPath ''/'' [''data'']}, writable_paths = {}\<rparr>
        ''Read'' [''file_path'' \<mapsto> PStr ''''] = Inr PermissionResultAllow"
  by (simp add: resolve_in_def proper_descendant_def permission_handler_def
                py_or_def dict_get_def)

text \<open>
  C2, as amended. For every non-empty path string \<open>P\<close> that resolves to \<open>t\<close>, and
  every non-empty scope \<open>S\<close>: \<^verbatim>\<open>Read\<close>, \<^verbatim>\<open>Grep\<close> and \<^verbatim>\<open>Glob\<close> with
  \<^verbatim>\<open>{file_path: P}\<close> are allowed when \<open>t\<close> is a member of the read scope \<open>S\<close> or a
  proper descendant of one, and are denied otherwise with the message
  \<^verbatim>\<open>Access Denied: P is not in readable whitelist.\<close>; \<^verbatim>\<open>Write\<close>, \<^verbatim>\<open>Edit\<close> and
  \<^verbatim>\<open>MultiEdit\<close> behave the same against the write scope, with \<^verbatim>\<open>writable\<close> in
  the message.
\<close>

theorem path_tool_decision:
  assumes "P \<noteq> []" and "resolve P = Inr t" and "S \<noteq> {}"
  shows "(tool_name \<in> {''Read'', ''Grep'', ''Glob''} \<and> readable_paths self = S \<longrightarrow>
            permission_handler resolve self tool_name [''file_path'' \<mapsto> PStr P] =
              Inr (if t \<in> S \<or> (\<exists>p \<in> S. proper_descendant t p) then PermissionResultAllow
                   else PermissionResultDeny
                          (''Access Denied: '' @ P @ '' is not in readable whitelist.'')))
       \<and> (tool_name \<in> {''Write'', ''Edit'', ''MultiEdit''} \<and> writable_paths self = S \<longrightarrow>
            permission_handler resolve self tool_name [''file_path'' \<mapsto> PStr P] =
              Inr (if t \<in> S \<or> (\<exists>p \<in> S. proper_descendant t p) then PermissionResultAllow
                   else PermissionResultDeny
                          (''Access Denied: '' @ P @ '' is not in writable whitelist.'')))"
proof (intro conjI impI)
  assume "tool_name \<in> {''Read'', ''Grep'', ''Glob''} \<and> readable_paths self = S"
  then show "permission_handler resolve self tool_name [''file_path'' \<mapsto> PStr P] =
      Inr (if t \<in> S \<or> (\<exists>p \<in> S. proper_descendant t p) then PermissionResultAllow
           else PermissionResultDeny
                  (''Access Denied: '' @ P @ '' is not in readable whitelist.''))"
    unfolding permission_handler_def path_str_file_path [OF assms(1)]
    using assms by (auto simp: in_scope_nonempty)
next
  assume w: "tool_name \<in> {''Write'', ''Edit'', ''MultiEdit''} \<and> writable_paths self = S"
  then have "tool_name \<notin> set [''Read'', ''Grep'', ''Glob'']" by auto
  with w show "permission_handler resolve self tool_name [''file_path'' \<mapsto> PStr P] =
      Inr (if t \<in> S \<or> (\<exists>p \<in> S. proper_descendant t p) then PermissionResultAllow
           else PermissionResultDeny
                  (''Access Denied: '' @ P @ '' is not in writable whitelist.''))"
    unfolding permission_handler_def path_str_file_path [OF assms(1)]
    using assms by (auto simp: in_scope_nonempty)
qed

theorem path_tool_decision_witness:
  "permission_handler (resolve_in [''home''])
      \<lparr>base_dir = ''/home'', model_name = ''m'',
       readable_paths = {PosixPath ''/'' [''data'']}, writable_paths = {}\<rparr>
      ''Read'' [''file_path'' \<mapsto> PStr ''/etc/passwd'']
    = Inr (PermissionResultDeny ''Access Denied: /etc/passwd is not in readable whitelist.'')
   \<and> permission_handler (resolve_in [''home''])
      \<lparr>base_dir = ''/home'', model_name = ''m'',
       readable_paths = {}, writable_paths = {PosixPath ''/'' [''home'', ''out'']}\<rparr>
      ''Edit'' [''file_path'' \<mapsto> PStr ''out/./a/../b.py'']
    = Inr PermissionResultAllow"
proof -
  have r1: "resolve_in [''home''] ''/etc/passwd'' = Inr (PosixPath ''/'' [''etc'', ''passwd''])"
    by (simp add: resolve_in_def)
  have r2: "resolve_in [''home''] ''out/./a/../b.py''
              = Inr (PosixPath ''/'' [''home'', ''out'', ''b.py''])"
    by (simp add: resolve_in_def)
  have n1: "''/etc/passwd'' \<noteq> []" and n2: "''out/./a/../b.py'' \<noteq> []" by simp_all
  have s1: "{PosixPath ''/'' [''data'']} \<noteq> {}"
    and s2: "{PosixPath ''/'' [''home'', ''out'']} \<noteq> {}" by simp_all
  show ?thesis
    using path_tool_decision [where resolve = "resolve_in [''home'']" and tool_name = "''Read''"
            and self = "\<lparr>base_dir = ''/home'', model_name = ''m'',
              readable_paths = {PosixPath ''/'' [''data'']}, writable_paths = {}\<rparr>",
            OF n1 r1 s1]
          path_tool_decision [where resolve = "resolve_in [''home'']" and tool_name = "''Edit''"
            and self = "\<lparr>base_dir = ''/home'', model_name = ''m'',
              readable_paths = {}, writable_paths = {PosixPath ''/'' [''home'', ''out'']}\<rparr>",
            OF n2 r2 s2]
    by (simp add: proper_descendant_def)
qed

text \<open>
  C3. When the parameter mapping has neither a \<^verbatim>\<open>file_path\<close> nor a \<^verbatim>\<open>path\<close>
  key, the handler allows the call, whatever the tool name, the scopes and the file
  system: it returns a decision, never a denial and never an exception.
\<close>

theorem no_path_parameter_allows:
  assumes "tool_input ''file_path'' = None" and "tool_input ''path'' = None"
  shows "permission_handler resolve self tool_name tool_input = Inr PermissionResultAllow"
  using assms by (simp add: permission_handler_def py_or_def dict_get_def)

theorem no_path_parameter_allows_witness:
  "permission_handler (\<lambda>s. Inl RuntimeError)
      \<lparr>base_dir = ''/home'', model_name = ''m'',
       readable_paths = {PosixPath ''/'' [''data'']},
       writable_paths = {PosixPath ''/'' [''data'']}\<rparr>
      ''Write'' [''content'' \<mapsto> PStr ''x = 1''] = Inr PermissionResultAllow"
proof -
  have a: "[''content'' \<mapsto> PStr ''x = 1''] ''file_path'' = None"
    and b: "[''content'' \<mapsto> PStr ''x = 1''] ''path'' = None" by simp_all
  show ?thesis by (rule no_path_parameter_allows [OF a b])
qed

text \<open>
  A tool outside both categories is allowed whenever the candidate path is falsy or a
  string that resolves.
\<close>

lemma other_tool_allows:
  assumes "tool_name \<notin> {''Read'', ''Grep'', ''Glob'', ''Write'', ''Edit'', ''MultiEdit''}"
    and "py_or (dict_get tool_input ''file_path'') (dict_get tool_input ''path'') = v"
    and "\<not> truthy v \<or> (\<exists>s t. v = PStr s \<and> resolve s = Inr t)"
  shows "permission_handler resolve self tool_name tool_input = Inr PermissionResultAllow"
  using assms by (auto simp: permission_handler_def)

text \<open>
  C4, the failing input. \<^verbatim>\<open>Bash\<close> is in neither category, yet with the parameter
  mapping \<^verbatim>\<open>{"path": 5}\<close> the handler does not reach its final
  \<^verbatim>\<open>return PermissionResultAllow\<close>: the value is truthy, so \<^verbatim>\<open>Path(5)\<close> is
  evaluated first and raises \<^verbatim>\<open>TypeError\<close>, for every agent and file system.
\<close>

theorem bash_non_string_path_raises:
  "permission_handler resolve self ''Bash'' [''path'' \<mapsto> PInt 5] = Inl TypeError"
  by (simp add: permission_handler_def py_or_def dict_get_def)

text \<open>
  C10. When the values under \<^verbatim>\<open>file_path\<close> and \<^verbatim>\<open>path\<close> are both falsy
  (missing, \<^verbatim>\<open>None\<close>, the empty string, ...), the handler allows the call for
  every tool name and every pair of scopes. When the value under \<^verbatim>\<open>file_path\<close> is
  truthy, the value under \<^verbatim>\<open>path\<close> is never looked at: the decision is the one for
  the mapping that holds \<^verbatim>\<open>file_path\<close> alone.
\<close>

theorem falsy_path_allows_and_file_path_first:
  "(\<not> truthy (dict_get tool_input ''file_path'') \<and> \<not> truthy (dict_get tool_input ''path'') \<longrightarrow>
      permission_handler resolve self tool_name tool_input = Inr PermissionResultAllow)
   \<and> (tool_input ''file_path'' = Some fp \<and> truthy fp \<and> tool_input ''path'' = Some pv \<and> truthy pv \<longrightarrow>
      permission_handler resolve self tool_name tool_input =
        permission_handler resolve self tool_name [''file_path'' \<mapsto> fp])"
  by (simp add: permission_handler_def py_or_def dict_get_def)

theorem falsy_path_allows_and_file_path_first_witness:
  "permission_handler (resolve_in [''home''])
      \<lparr>base_dir = ''/home'', model_name = ''m'', readable_paths = {},
       writable_paths = {PosixPath ''/'' [''data'']}\<rparr>
      ''Write'' [''file_path'' \<mapsto> PStr '''', ''path'' \<mapsto> PNone] = Inr PermissionResultAllow
   \<and> permission_handler (resolve_in [''home''])
      \<lparr>base_dir = ''/home'', model_name = ''m'', readable_paths = {},
       writable_paths = {PosixPath ''/'' [''data'']}\<rparr>
      ''Write'' [''file_path'' \<mapsto> PStr ''/etc/passwd'', ''path'' \<mapsto> PStr ''/data/a'']
     = Inr (PermissionResultDeny ''Access Denied: /etc/passwd is not in writable whitelist.'')"
proof -
  let ?self = "\<lparr>base_dir = ''/home'', model_name = ''m'', readable_paths = {},
                writable_paths = {PosixPath ''/'' [''data'']}\<rparr>"
  have a: "permission_handler (resolve_in [''home'']) ?self ''Write''
             [''file_path'' \<mapsto> PStr '''', ''path'' \<mapsto> PNone] = Inr PermissionResultAllow"
    using falsy_path_allows_and_file_path_first
            [where tool_input = "[''file_path'' \<mapsto> PStr '''', ''path'' \<mapsto> PNone]"
               and resolve = "resolve_in [''home'']" and self = ?self
               and tool_name = "''Write''"]
    by (simp add: dict_get_def)
  have "permission_handler (resolve_in [''home'']) ?self ''Write''
          [''file_path'' \<mapsto> PStr ''/etc/passwd'', ''path'' \<mapsto> PStr ''/data/a'']
        = permission_handler (resolve_in [''home'']) ?self ''Write''
          [''file_path'' \<mapsto> PStr ''/etc/passwd'']"
    using falsy_path_allows_and_file_path_first
            [where tool_input = "[''file_path'' \<mapsto> PStr ''/etc/passwd'',
                                  ''path'' \<mapsto> PStr ''/data/a'']"
               and fp = "PStr ''/etc/passwd''" and pv = "PStr ''/data/a''"
               and resolve = "resolve_in [''home'']" and self = ?self
               and tool_name = "''Write''"]
    by simp
  also have "\<dots> = Inr (PermissionResultDeny
                        ''Access Denied: /etc/passwd is not in writable whitelist.'')"
    by (simp add: permission_handler_def py_or_def dict_get_def resolve_in_def in_scope_def
                  is_subpath_def parents_def)
  finally show ?thesis using a by simp
qed

section \<open>The trace of tool results\<close>

lemma replace_newlines_append:
  "replace_newlines (xs @ ys) = replace_newlines xs @ replace_newlines ys"
  by (simp add: replace_newlines_def)

lemma replace_newlines_no_newline: "CHR 0x0A \<notin> set (replace_newlines s)"
  by (induction s) (auto simp: replace_newlines_def)

lemma replace_newlines_id: "CHR 0x0A \<notin> set s \<Longrightarrow> replace_newlines s = s"
  by (induction s) (auto simp: replace_newlines_def)

lemma length_last100: "100 \<le> length s \<Longrightarrow> length (last100 s) = 100"
  by (simp add: last100_def)

text \<open>
  String content is rendered as the specification says: above 200 characters the
  first hundred, three dots and the last hundred, otherwise all of it, with every
  newline replaced; the status is \<^verbatim>\<open>ERROR\<close> exactly when the flag is true.
\<close>

lemma tool_result_line_str:
  "tool_result_line repr (ContentStr s) is_error =
     ''  -> ['' @ (if is_error = Some True then ''ERROR'' else ''OK'') @ ''] '' @
     (if 200 < length s
      then replace_newlines (take 100 s) @ ''...'' @ replace_newlines (drop (length s - 100) s)
      else replace_newlines s)"
  by (simp add: tool_result_line_def status_def last100_def replace_newlines_append
                replace_newlines_def)

lemma display_250:
  assumes "length s = 250" and "CHR 0x0A \<notin> set s"
  shows "display repr (ContentStr s) = take 100 s @ ''...'' @ drop 150 s"
    and "length (display repr (ContentStr s)) = 203"
proof -
  have "CHR 0x0A \<notin> set (take 100 s @ ''...'' @ drop 150 s)"
    using assms(2) by (auto dest: in_set_takeD in_set_dropD)
  then show "display repr (ContentStr s) = take 100 s @ ''...'' @ drop 150 s"
    using assms(1) by (simp add: last100_def replace_newlines_id)
  then show "length (display repr (ContentStr s)) = 203"
    using assms(1) by simp
qed

text \<open>
  C9, the failing input. A tool result whose content is \<^verbatim>\<open>None\<close> (the default of
  the block) is not a string, so the branch without the length test renders it: the
  four characters of \<^verbatim>\<open>str(None)\<close> are printed twice around three dots, where the
  claim has a content of at most 200 characters shown in full.
\<close>

theorem none_content_printed_twice:
  "run_from loads repr \<lparr>printed = [], final_result = PNone\<rparr>
     [UserMessage (UserBlocks [ToolResultBlock ContentNone None])]
   = Inr \<lparr>printed = [''  -> [OK] None...None''], final_result = PNone\<rparr>"
  by (simp add: tool_result_line_def status_def last100_def)

section \<open>The extraction ladder\<close>

lemma extract_result_eq:
  "extract_result loads out res =
     (if out \<noteq> PNone then Inr out
      else case res of
        None \<Rightarrow> Inr PNone
      | Some r \<Rightarrow> if r \<noteq> [] then parse_result_json loads r else Inr PNone)"
  by (simp add: extract_result_def run_def split: option.splits sum.splits)

lemma re_search_Nil: "re_search fence_pattern [] = None"
  by (simp add: fence_pattern_def)

text \<open>
  C6. When the terminal message carries a structured output, the extraction yields it,
  whatever the raw text is and whatever \<^verbatim>\<open>json.loads\<close> would make of it: the raw
  text is not consulted.
\<close>

theorem structured_output_first:
  assumes "out \<noteq> PNone"
  shows "extract_result loads out res = Inr out"
  using assms by (simp add: extract_result_eq)

theorem structured_output_first_witness:
  "is_task_result (PDict [(''status'', PBool True), (''summary'', PStr ''a''),
                          (''insights'', PStr '''')])
   \<and> parse_result_json json_loads ''{\"status\": false, \"summary\": \"b\", \"insights\": \"\"}''
       = Inr (PDict [(''status'', PBool False), (''summary'', PStr ''b''),
                     (''insights'', PStr '''')])
   \<and> extract_result json_loads
         (PDict [(''status'', PBool True), (''summary'', PStr ''a''), (''insights'', PStr '''')])
         (Some ''{\"status\": false, \"summary\": \"b\", \"insights\": \"\"}'')
       = Inr (PDict [(''status'', PBool True), (''summary'', PStr ''a''),
                     (''insights'', PStr '''')])"
proof -
  have a: "PDict [(''status'', PBool True), (''summary'', PStr ''a''), (''insights'', PStr '''')]
             \<noteq> PNone" by simp
  have b: "parse_result_json json_loads
             ''{\"status\": false, \"summary\": \"b\", \"insights\": \"\"}''
           = Inr (PDict [(''status'', PBool False), (''summary'', PStr ''b''),
                         (''insights'', PStr '''')])"
    by code_simp
  show ?thesis
    using structured_output_first [OF a, of json_loads
            "Some ''{\"status\": false, \"summary\": \"b\", \"insights\": \"\"}''"] b
    by simp
qed

section \<open>The fenced block\<close>

text \<open>
  The search finds a block exactly in the texts that hold two fences, one behind the
  other. The lemmas follow the matcher item by item: a greedy or optional item that
  cannot go on gives way to the rest of the pattern, and every match of an item list
  leaves a suffix of the text on which the rest of the list matches.
\<close>

lemma match_here_Opt_fallback:
  "match_here items s \<noteq> None \<Longrightarrow> match_here (Opt w # items) s \<noteq> None"
  by (auto split: option.splits)

lemma match_here_Star_fallback:
  "match_here items s \<noteq> None \<Longrightarrow> match_here (Star P # items) s \<noteq> None"
  by (induction s) (auto split: option.splits)

lemma lazy_group_finds:
  "sublist F s \<Longrightarrow> F \<noteq> [] \<Longrightarrow> match_here [LazyGroup, Opt w, Lit F] s \<noteq> None"
proof (induction s)
  case Nil
  then show ?case by simp
next
  case (Cons c cs)
  show ?case
  proof (cases "match_here [Opt w, Lit F] (c # cs)")
    case (Some a)
    then show ?thesis by (simp del: match_here.simps(2,3))
  next
    case None
    have "\<not> prefix F (c # cs)"
    proof
      assume "prefix F (c # cs)"
      then have "match_here [Lit F] (c # cs) \<noteq> None" by simp
      then have "match_here [Opt w, Lit F] (c # cs) \<noteq> None"
        by (rule match_here_Opt_fallback)
      with None show False by simp
    qed
    with Cons.prems(1) have "sublist F cs"
      by (simp add: sublist_Cons_right)
    then have "match_here [LazyGroup, Opt w, Lit F] cs \<noteq> None"
      using Cons.IH Cons.prems(2) by simp
    with None show ?thesis by (simp del: match_here.simps(2,3))
  qed
qed

text \<open>A match of an item list leaves a suffix on which the rest of the list matches.\<close>

lemma match_here_Lit_suffix:
  "match_here (Lit w # items) s = Some g \<Longrightarrow>
   prefix w s \<and> match_here items (drop (length w) s) = Some g"
  by (simp split: if_splits)

lemma match_here_Opt_suffix:
  assumes "match_here (Opt w # items) s = Some g"
  shows "\<exists>s' g'. suffix s' s \<and> match_here items s' = Some g'"
proof (cases "prefix w s \<and> match_here items (drop (length w) s) \<noteq> None")
  case True
  then obtain g' where "match_here items (drop (length w) s) = Some g'" by auto
  then have "suffix (drop (length w) s) s \<and> match_here items (drop (length w) s) = Some g'"
    by (simp add: suffix_drop)
  then show ?thesis by (intro exI)
next
  case False
  with assms have "match_here items s = Some g"
    by (auto split: if_splits option.splits)
  then have "suffix s s \<and> match_here items s = Some g" by simp
  then show ?thesis by (intro exI)
qed

lemma match_here_Star_suffix:
  "match_here (Star P # items) s = Some g \<Longrightarrow>
   \<exists>s' g'. suffix s' s \<and> match_here items s' = Some g'"
proof (induction s arbitrary: g)
  case Nil
  then have "suffix [] [] \<and> match_here items [] = Some g" by simp
  then show ?case by (intro exI)
next
  case (Cons c cs)
  show ?case
  proof (cases "P c \<and> match_here (Star P # items) cs \<noteq> None")
    case True
    then obtain g' where "match_here (Star P # items) cs = Some g'" by auto
    from Cons.IH [OF this] obtain s' g'' where "suffix s' cs \<and> match_here items s' = Some g''"
      by (elim exE)
    then have "suffix s' (c # cs) \<and> match_here items s' = Some g''"
      by (simp add: suffix_ConsI)
    then show ?thesis by (intro exI)
  next
    case False
    with Cons.prems have "match_here items (c # cs) = Some g"
      by (auto split: if_splits option.splits)
    then have "suffix (c # cs) (c # cs) \<and> match_here items (c # cs) = Some g" by simp
    then show ?thesis by (intro exI)
  qed
qed

lemma match_here_LazyGroup_suffix:
  "match_here (LazyGroup # items) s = Some g \<Longrightarrow>
   \<exists>s' g'. suffix s' s \<and> match_here items s' = Some g'"
proof (induction s arbitrary: g)
  case Nil
  then obtain g' where "match_here items [] = Some g'"
    by (auto split: option.splits)
  then have "suffix [] [] \<and> match_here items [] = Some g'" by simp
  then show ?case by (intro exI)
next
  case (Cons c cs)
  show ?case
  proof (cases "match_here items (c # cs)")
    case (Some a)
    then have "suffix (c # cs) (c # cs) \<and> match_here items (c # cs) = Some a" by simp
    then show ?thesis by (intro exI)
  next
    case None
    with Cons.prems obtain g' where "match_here (LazyGroup # items) cs = Some g'"
      by auto
    from Cons.IH [OF this] obtain s' g'' where "suffix s' cs \<and> match_here items s' = Some g''"
      by (elim exE)
    then have "suffix s' (c # cs) \<and> match_here items s' = Some g''"
      by (simp add: suffix_ConsI)
    then show ?thesis by (intro exI)
  qed
qed

lemma re_search_finds:
  "match_here items s \<noteq> None \<Longrightarrow> re_search items (a @ s) \<noteq> None"
proof (induction a)
  case Nil
  then show ?case by (cases s) auto
next
  case (Cons x a)
  then show ?case by (simp split: option.splits)
qed

lemma re_search_suffix:
  "re_search items r = Some g \<Longrightarrow> \<exists>s. suffix s r \<and> match_here items s = Some g"
proof (induction r)
  case Nil
  then have "suffix [] [] \<and> match_here items [] = Some g" by simp
  then show ?case ..
next
  case (Cons c cs)
  show ?case
  proof (cases "match_here items (c # cs)")
    case (Some a)
    with Cons.prems have "suffix (c # cs) (c # cs) \<and> match_here items (c # cs) = Some g"
      by simp
    then show ?thesis ..
  next
    case None
    with Cons.prems have "re_search items cs = Some g" by simp
    then obtain s where "suffix s cs" and "match_here items s = Some g"
      using Cons.IH by blast
    then have "suffix s (c # cs) \<and> match_here items s = Some g"
      by (simp add: suffix_ConsI)
    then show ?thesis ..
  qed
qed

lemma fence_match_here:
  "match_here fence_pattern (''```'' @ b @ ''```'' @ c) \<noteq> None"
proof -
  have "sublist ''```'' (b @ ''```'' @ c)"
    by (rule sublist_appendI)
  then have "match_here [LazyGroup, Opt [CHR 0x0A], Lit ''```''] (b @ ''```'' @ c) \<noteq> None"
    by (rule lazy_group_finds) simp
  then have "match_here [Opt [CHR 0x0A], LazyGroup, Opt [CHR 0x0A], Lit ''```'']
               (b @ ''```'' @ c) \<noteq> None"
    by (rule match_here_Opt_fallback)
  then have "match_here [Star isspace, Opt [CHR 0x0A], LazyGroup, Opt [CHR 0x0A], Lit ''```'']
               (b @ ''```'' @ c) \<noteq> None"
    by (rule match_here_Star_fallback)
  then have "match_here [Opt ''json'', Star isspace, Opt [CHR 0x0A], LazyGroup, Opt [CHR 0x0A],
                         Lit ''```''] (b @ ''```'' @ c) \<noteq> None"
    by (rule match_here_Opt_fallback)
  then show ?thesis
    by (simp add: fence_pattern_def del: match_here.simps(3,4,5,6,7))
qed

lemma fence_match_here_shape:
  assumes "match_here fence_pattern s = Some g"
  shows "\<exists>b c. s = ''```'' @ b @ ''```'' @ c"
proof -
  let ?F = "''```''"
  let ?nl = "[CHR 0x0A]"
  from assms have m0: "match_here [Lit ?F, Opt ''json'', Star isspace, Opt ?nl, LazyGroup,
                                   Opt ?nl, Lit ?F] s = Some g"
    by (simp only: fence_pattern_def)
  from match_here_Lit_suffix [OF m0] have p: "prefix ?F s"
    and m1: "match_here [Opt ''json'', Star isspace, Opt ?nl, LazyGroup, Opt ?nl, Lit ?F]
               (drop (length ?F) s) = Some g"
    by (rule conjunct1, rule conjunct2)
  from match_here_Opt_suffix [OF m1] obtain s1 g1 where s1: "suffix s1 (drop (length ?F) s)"
    and m2: "match_here [Star isspace, Opt ?nl, LazyGroup, Opt ?nl, Lit ?F] s1 = Some g1"
    by (elim exE conjE)
  from match_here_Star_suffix [OF m2] obtain s2 g2 where s2: "suffix s2 s1"
    and m3: "match_here [Opt ?nl, LazyGroup, Opt ?nl, Lit ?F] s2 = Some g2"
    by (elim exE conjE)
  from match_here_Opt_suffix [OF m3] obtain s3 g3 where s3: "suffix s3 s2"
    and m4: "match_here [LazyGroup, Opt ?nl, Lit ?F] s3 = Some g3"
    by (elim exE conjE)
  from match_here_LazyGroup_suffix [OF m4] obtain s4 g4 where s4: "suffix s4 s3"
    and m5: "match_here [Opt ?nl, Lit ?F] s4 = Some g4"
    by (elim exE conjE)
  from match_here_Opt_suffix [OF m5] obtain s5 g5 where s5: "suffix s5 s4"
    and m6: "match_here [Lit ?F] s5 = Some g5"
    by (elim exE conjE)
  from match_here_Lit_suffix [OF m6] have p5: "prefix ?F s5"
    by (rule conjunct1)
  have "suffix s5 s3" using s5 s4 by (rule suffix_order.trans)
  then have "suffix s5 s2" using s3 by (rule suffix_order.trans)
  then have "suffix s5 s1" using s2 by (rule suffix_order.trans)
  then have "suffix s5 (drop (length ?F) s)" using s1 by (rule suffix_order.trans)
  then obtain b where b: "drop (length ?F) s = b @ s5"
    unfolding suffix_def by (elim exE)
  from p5 obtain c where c: "s5 = ?F @ c"
    unfolding prefix_def by (elim exE)
  from p obtain t where t: "s = ?F @ t"
    unfolding prefix_def by (elim exE)
  then have "drop (length ?F) s = t" by simp
  with b c have "t = b @ ?F @ c" by simp
  with t have "s = ?F @ b @ ?F @ c" by simp
  then show ?thesis by (intro exI)
qed

lemma fence_found_iff:
  "re_search fence_pattern r \<noteq> None \<longleftrightarrow> (\<exists>a b c. r = a @ ''```'' @ b @ ''```'' @ c)"
proof
  assume "re_search fence_pattern r \<noteq> None"
  then obtain g where "re_search fence_pattern r = Some g" by auto
  then obtain s where s: "suffix s r" and m: "match_here fence_pattern s = Some g"
    using re_search_suffix by blast
  from s obtain a where a: "r = a @ s" by (auto simp: suffix_def)
  from m obtain b c where "s = ''```'' @ b @ ''```'' @ c"
    using fence_match_here_shape by blast
  with a have "r = a @ ''```'' @ b @ ''```'' @ c" by simp
  then show "\<exists>a b c. r = a @ ''```'' @ b @ ''```'' @ c" by blast
next
  assume "\<exists>a b c. r = a @ ''```'' @ b @ ''```'' @ c"
  then obtain a b c where r: "r = a @ ''```'' @ b @ ''```'' @ c" by blast
  have "re_search fence_pattern (a @ ''```'' @ b @ ''```'' @ c) \<noteq> None"
    by (rule re_search_finds [OF fence_match_here])
  with r show "re_search fence_pattern r \<noteq> None" by simp
qed

section \<open>The decoder stays within its bound\<close>

text \<open>
  Every scanner that returns has consumed at least one character, so the bound that
  \<open>json_loads\<close> starts with is never used up: \<open>json_loads\<close> does not raise
  \<^verbatim>\<open>RecursionError\<close>.
\<close>

lemma skip_ws_le: "length (skip_ws s) \<le> length s"
  by (simp add: skip_ws_def length_dropWhile_le)

lemma skip_ws_Cons_less: "skip_ws s = d # r \<Longrightarrow> length r < length s"
  using skip_ws_le [of s] by simp

lemma scanstring_shorter: "scanstring acc s = Inr (str, r) \<Longrightarrow> length r < length s"
proof (induction acc s rule: scanstring.induct)
  case (1 acc)
  then show ?case by simp
next
  case (2 acc c)
  then show ?case by (simp split: if_splits)
next
  case (3 acc c e r')
  show ?case
  proof (cases "c = CHR 0x22")
    case True
    with 3 show ?thesis by simp
  next
    case nq: False
    show ?thesis
    proof (cases "c = CHR 0x5C")
      case bs: True
      show ?thesis
      proof (cases "e = CHR ''u''")
        case True
        with nq bs "3.prems" obtain n where n: "decode_uXXXX r' = Some n" "n < 256"
          and s: "scanstring (char_of n # acc) (drop 4 r') = Inr (str, r)"
          by (auto split: option.splits if_splits)
        from "3.IH"(1) [OF nq bs True n(1) n(2) s] have "length r < length (drop 4 r')" .
        then show ?thesis by simp
      next
        case False
        with nq bs "3.prems" obtain ch where ch: "backslash e = Some ch"
          and s: "scanstring (ch # acc) r' = Inr (str, r)"
          by (auto split: option.splits if_splits)
        from "3.IH"(2) [OF nq bs False ch s] have "length r < length r'" .
        then show ?thesis by simp
      qed
    next
      case False
      with nq "3.prems" have c: "\<not> (of_char c :: nat) < 32"
        and s: "scanstring (c # acc) (e # r') = Inr (str, r)"
        by (auto split: if_splits)
      from "3.IH"(3) [OF nq False c s] have "length r < length (e # r')" .
      then show ?thesis by simp
    qed
  qed
qed

lemma scanstring_no_recursion_error: "scanstring acc s \<noteq> Inl RecursionError"
  by (induction acc s rule: scanstring.induct) (auto split: option.splits)

lemma scan_frac_le: "scan_frac s = (fs, r) \<Longrightarrow> length r \<le> length s"
proof (cases s)
  case Nil
  then show "scan_frac s = (fs, r) \<Longrightarrow> length r \<le> length s"
    by (simp add: scan_frac_def)
next
  case (Cons c t)
  assume a: "scan_frac s = (fs, r)"
  show "length r \<le> length s"
  proof (cases t)
    case Nil
    with Cons a show ?thesis by (simp add: scan_frac_def)
  next
    case (Cons d u)
    have "length (dropWhile is_digit u) \<le> length u" by (rule length_dropWhile_le)
    with a \<open>s = c # t\<close> Cons show ?thesis
      by (auto simp: scan_frac_def split: if_splits)
  qed
qed

lemma scan_exp_le: "scan_exp s = Some (e, r) \<Longrightarrow> length r \<le> length s"
proof (cases s)
  case Nil
  then show "scan_exp s = Some (e, r) \<Longrightarrow> length r \<le> length s"
    by (simp add: scan_exp_def)
next
  case (Cons c t)
  assume a: "scan_exp s = Some (e, r)"
  show "length r \<le> length s"
  proof (cases t)
    case Nil
    with Cons a show ?thesis by (simp add: scan_exp_def split: if_splits)
  next
    case (Cons d u)
    have "length (dropWhile is_digit u) \<le> length u" by (rule length_dropWhile_le)
    with a \<open>s = c # t\<close> Cons show ?thesis
      by (auto simp: scan_exp_def split: if_splits)
  qed
qed

lemma scan_number_shorter:
  assumes "scan_number s = Some (v, r)"
  shows "length r < length s"
proof -
  define s1 where "s1 = (if take 1 s = ''-'' then drop 1 s else s)"
  have l1: "length s1 \<le> length s" by (simp add: s1_def)
  from assms obtain d r0 where s1: "s1 = d # r0"
    by (cases s1) (auto simp: scan_number_def s1_def Let_def)
  have "\<exists>s2 fs s3. length s2 \<le> length r0 \<and> scan_frac s2 = (fs, s3)
           \<and> (r = s3 \<or> (\<exists>e. scan_exp s3 = Some (e, r)))"
  proof (cases "d = CHR ''0''")
    case True
    obtain fs s3 where f: "scan_frac r0 = (fs, s3)" by (cases "scan_frac r0")
    have "r = s3 \<or> (\<exists>e. scan_exp s3 = Some (e, r))"
      using assms s1 f True unfolding scan_number_def s1_def [symmetric] Let_def
      by (auto split: if_splits option.splits)
    with f show ?thesis by auto
  next
    case False
    obtain fs s3 where f: "scan_frac (dropWhile is_digit r0) = (fs, s3)"
      by (cases "scan_frac (dropWhile is_digit r0)")
    have "r = s3 \<or> (\<exists>e. scan_exp s3 = Some (e, r))"
      using assms s1 f False unfolding scan_number_def s1_def [symmetric] Let_def
      by (auto split: if_splits option.splits)
    moreover have "length (dropWhile is_digit r0) \<le> length r0"
      by (rule length_dropWhile_le)
    ultimately show ?thesis using f by blast
  qed
  then obtain s2 fs s3 where l2: "length s2 \<le> length r0" and f: "scan_frac s2 = (fs, s3)"
    and r: "r = s3 \<or> (\<exists>e. scan_exp s3 = Some (e, r))"
    by blast
  from f have l3: "length s3 \<le> length s2" by (rule scan_frac_le)
  from r have "length r \<le> length s3"
    using scan_exp_le by auto
  with l1 l2 l3 s1 show ?thesis by simp
qed

lemma scanners_shorter:
  "(\<forall>s v r. scan_once n s = Inr (v, r) \<longrightarrow> length r < length s) \<and>
   (\<forall>acc s v r. array_items n acc s = Inr (v, r) \<longrightarrow> length r < length s) \<and>
   (\<forall>kvs s v r. object_items n kvs s = Inr (v, r) \<longrightarrow> length r < length s)"
proof (induction n)
  case 0
  show ?case by simp
next
  case (Suc n)
  then have so: "\<And>s v r. scan_once n s = Inr (v, r) \<Longrightarrow> length r < length s"
    and ai: "\<And>acc s v r. array_items n acc s = Inr (v, r) \<Longrightarrow> length r < length s"
    and oi: "\<And>kvs s v r. object_items n kvs s = Inr (v, r) \<Longrightarrow> length r < length s"
    by blast+
  have 1: "length r < length s" if a: "scan_once (Suc n) s = Inr (v, r)" for s v r
  proof (cases s)
    case Nil
    with a show ?thesis by simp
  next
    case (Cons c cs)
    show ?thesis
    proof (cases "c = CHR 0x22")
      case True
      with a Cons obtain str where "scanstring [] cs = Inr (str, r)"
        by (auto split: sum.splits)
      from scanstring_shorter [OF this] Cons show ?thesis by simp
    next
      case nq: False
      show ?thesis
      proof (cases "c = CHR ''{''")
        case True
        with a Cons nq obtain d r' where sk: "skip_ws cs = d # r'"
          and h: "(d = CHR ''}'' \<and> r = r') \<or> object_items n [] r' = Inr (v, r)"
          by (auto split: list.splits if_splits)
        from skip_ws_Cons_less [OF sk] have "length r' < length cs" .
        moreover from h have "length r \<le> length r'" using oi by fastforce
        ultimately show ?thesis using Cons by simp
      next
        case nb: False
        show ?thesis
        proof (cases "c = CHR ''[''")
          case True
          with a Cons nq nb obtain d r' where sk: "skip_ws cs = d # r'"
            and h: "(d = CHR '']'' \<and> r = r') \<or> array_items n [] (d # r') = Inr (v, r)"
            by (auto split: list.splits if_splits)
          from skip_ws_Cons_less [OF sk] have "length r' < length cs" .
          moreover from h have "length r \<le> length (d # r')" using ai by fastforce
          ultimately show ?thesis using Cons by simp
        next
          case False
          with a Cons nq nb have
            "r = drop 4 (c # cs) \<or> r = drop 5 (c # cs) \<or> r = drop 3 (c # cs)
             \<or> r = drop 8 (c # cs) \<or> r = drop 9 (c # cs)
             \<or> scan_number (c # cs) = Some (v, r)"
            by (auto split: if_splits option.splits)
          then show ?thesis using Cons scan_number_shorter by fastforce
        qed
      qed
    qed
  qed
  have 2: "length r < length s" if a: "array_items (Suc n) acc s = Inr (v, r)" for acc s v r
  proof -
    from a obtain v1 r1 where s1: "scan_once n s = Inr (v1, r1)"
      by (auto split: sum.splits)
    from so [OF s1] have l1: "length r1 < length s" .
    from a s1 obtain d r' where sk: "skip_ws r1 = d # r'"
      and h: "(d = CHR '']'' \<and> r = r') \<or> array_items n (v1 # acc) (skip_ws r') = Inr (v, r)"
      by (auto split: list.splits if_splits)
    from skip_ws_Cons_less [OF sk] have l2: "length r' < length r1" .
    from h have "length r \<le> length r'"
    proof
      assume "d = CHR '']'' \<and> r = r'"
      then show ?thesis by simp
    next
      assume "array_items n (v1 # acc) (skip_ws r') = Inr (v, r)"
      from ai [OF this] skip_ws_le [of r'] show ?thesis by simp
    qed
    with l1 l2 show ?thesis by simp
  qed
  have 3: "length r < length s" if a: "object_items (Suc n) kvs s = Inr (v, r)" for kvs s v r
  proof -
    from a obtain key r0 where s0: "scanstring [] s = Inr (key, r0)"
      by (auto split: sum.splits)
    from scanstring_shorter [OF s0] have l0: "length r0 < length s" .
    from a s0 obtain d r1 where sk1: "skip_ws r0 = d # r1" and d: "d = CHR '':''"
      by (auto split: list.splits if_splits)
    from skip_ws_Cons_less [OF sk1] have l1: "length r1 < length r0" .
    from a s0 sk1 d obtain v1 r2 where s2: "scan_once n (skip_ws r1) = Inr (v1, r2)"
      by (auto split: sum.splits)
    from so [OF s2] skip_ws_le [of r1] have l2: "length r2 < length r1" by simp
    from a s0 sk1 d s2 obtain d' r3 where sk3: "skip_ws r2 = d' # r3"
      and h: "(d' = CHR ''}'' \<and> r = r3) \<or>
              (\<exists>q r4. skip_ws r3 = q # r4 \<and> object_items n ((key, v1) # kvs) r4 = Inr (v, r))"
      by (auto split: list.splits if_splits)
    from skip_ws_Cons_less [OF sk3] have l3: "length r3 < length r2" .
    from h have "length r \<le> length r3"
    proof
      assume "d' = CHR ''}'' \<and> r = r3"
      then show ?thesis by simp
    next
      assume "\<exists>q r4. skip_ws r3 = q # r4 \<and> object_items n ((key, v1) # kvs) r4 = Inr (v, r)"
      then obtain q r4 where sk4: "skip_ws r3 = q # r4"
        and o: "object_items n ((key, v1) # kvs) r4 = Inr (v, r)" by blast
      from oi [OF o] skip_ws_Cons_less [OF sk4] show ?thesis by simp
    qed
    with l0 l1 l2 l3 show ?thesis by simp
  qed
  from 1 2 3 show ?case by blast
qed

lemma scan_once_shorter: "scan_once n s = Inr (v, r) \<Longrightarrow> length r < length s"
  using scanners_shorter [of n] by blast

lemma scanners_enough:
  "(\<forall>s. 2 * length s < n \<longrightarrow> scan_once n s \<noteq> Inl RecursionError) \<and>
   (\<forall>acc s. 2 * length s + 1 < n \<longrightarrow> array_items n acc s \<noteq> Inl RecursionError) \<and>
   (\<forall>kvs s. 2 * length s < n \<longrightarrow> object_items n kvs s \<noteq> Inl RecursionError)"
proof (induction n)
  case 0
  show ?case by simp
next
  case (Suc n)
  then have so: "\<And>s. 2 * length s < n \<Longrightarrow> scan_once n s \<noteq> Inl RecursionError"
    and ai: "\<And>acc s. 2 * length s + 1 < n \<Longrightarrow> array_items n acc s \<noteq> Inl RecursionError"
    and oi: "\<And>kvs s. 2 * length s < n \<Longrightarrow> object_items n kvs s \<noteq> Inl RecursionError"
    by blast+
  have 1: "scan_once (Suc n) s \<noteq> Inl RecursionError" if b: "2 * length s < Suc n" for s
  proof
    assume a: "scan_once (Suc n) s = Inl RecursionError"
    show False
    proof (cases s)
      case Nil
      with a show ?thesis by simp
    next
      case (Cons c cs)
      show ?thesis
      proof (cases "c = CHR 0x22")
        case True
        with a Cons have "scanstring [] cs = Inl RecursionError"
          by (auto split: sum.splits)
        then show ?thesis using scanstring_no_recursion_error by blast
      next
        case nq: False
        show ?thesis
        proof (cases "c = CHR ''{''")
          case True
          with a Cons nq obtain d r' where sk: "skip_ws cs = d # r'"
            and h: "object_items n [] r' = Inl RecursionError"
            by (auto split: list.splits if_splits)
          from skip_ws_Cons_less [OF sk] b Cons have "2 * length r' < n" by simp
          from oi [OF this] h show ?thesis by simp
        next
          case nb: False
          show ?thesis
          proof (cases "c = CHR ''[''")
            case True
            with a Cons nq nb obtain d r' where sk: "skip_ws cs = d # r'"
              and h: "array_items n [] (d # r') = Inl RecursionError"
              by (auto split: list.splits if_splits)
            from skip_ws_le [of cs] sk b Cons have "2 * length (d # r') + 1 < n" by simp
            from ai [OF this] h show ?thesis by simp
          next
            case False
            with a Cons nq nb show ?thesis
              by (auto split: if_splits option.splits)
          qed
        qed
      qed
    qed
  qed
  have 2: "array_items (Suc n) acc s \<noteq> Inl RecursionError" if b: "2 * length s + 1 < Suc n"
    for acc s
  proof
    assume a: "array_items (Suc n) acc s = Inl RecursionError"
    from b have "2 * length s < n" by simp
    from so [OF this] have n1: "scan_once n s \<noteq> Inl RecursionError" .
    with a obtain v1 r1 where s1: "scan_once n s = Inr (v1, r1)"
      by (auto split: sum.splits)
    from scan_once_shorter [OF s1] have l1: "length r1 < length s" .
    from a s1 obtain d r' where sk: "skip_ws r1 = d # r'"
      and h: "array_items n (v1 # acc) (skip_ws r') = Inl RecursionError"
      by (auto split: list.splits if_splits)
    from skip_ws_Cons_less [OF sk] have l2: "length r' < length r1" .
    from l1 l2 b skip_ws_le [of r'] have "2 * length (skip_ws r') + 1 < n" by simp
    from ai [OF this] h show False by simp
  qed
  have 3: "object_items (Suc n) kvs s \<noteq> Inl RecursionError" if b: "2 * length s < Suc n"
    for kvs s
  proof
    assume a: "object_items (Suc n) kvs s = Inl RecursionError"
    have "scanstring [] s \<noteq> Inl RecursionError" by (rule scanstring_no_recursion_error)
    with a obtain key r0 where s0: "scanstring [] s = Inr (key, r0)"
      by (auto split: sum.splits)
    from scanstring_shorter [OF s0] have l0: "length r0 < length s" .
    from a s0 obtain d r1 where sk1: "skip_ws r0 = d # r1" and d: "d = CHR '':''"
      by (auto split: list.splits if_splits)
    from skip_ws_Cons_less [OF sk1] have l1: "length r1 < length r0" .
    from l0 l1 b skip_ws_le [of r1] have "2 * length (skip_ws r1) < n" by simp
    from so [OF this] have "scan_once n (skip_ws r1) \<noteq> Inl RecursionError" .
    with a s0 sk1 d obtain v1 r2 where s2: "scan_once n (skip_ws r1) = Inr (v1, r2)"
      by (auto split: sum.splits)
    from scan_once_shorter [OF s2] skip_ws_le [of r1] have l2: "length r2 < length r1" by simp
    from a s0 sk1 d s2 obtain d' r3 q r4 where sk3: "skip_ws r2 = d' # r3"
      and sk4: "skip_ws r3 = q # r4"
      and h: "object_items n ((key, v1) # kvs) r4 = Inl RecursionError"
      by (auto split: list.splits if_splits)
    from skip_ws_Cons_less [OF sk3] have l3: "length r3 < length r2" .
    from skip_ws_Cons_less [OF sk4] have l4: "length r4 < length r3" .
    from l0 l1 l2 l3 l4 b have "2 * length r4 < n" by simp
    from oi [OF this] h show False by simp
  qed
  from 1 2 3 show ?case by blast
qed

lemma json_loads_no_recursion_error: "json_loads s \<noteq> Inl RecursionError"
proof -
  have "2 * length (skip_ws s) < 2 * length s + 2"
    using skip_ws_le [of s] by simp
  then have "scan_once (2 * length s + 2) (skip_ws s) \<noteq> Inl RecursionError"
    using scanners_enough [of "2 * length s + 2"] by blast
  then show ?thesis
    by (auto simp: json_loads_def split: sum.splits)
qed




text \<open>
  C7, counterexample. The fenced block holds \<^verbatim>\<open>5\<close>. That is no TaskResult, yet the
  second stage does not fail: \<^verbatim>\<open>json.loads\<close> accepts the text and the ladder returns
  the number, where the later stages would have synthesized a record.
\<close>

theorem fenced_number_counterexample:
  "re_search fence_pattern ''```\<newline>5\<newline>```'' = Some ''5''
   \<and> \<not> is_task_result (PInt 5)
   \<and> extract_result json_loads PNone (Some ''```\<newline>5\<newline>```'') = Inr (PInt 5)
   \<and> parse_raw_json json_loads ''```\<newline>5\<newline>```'' = Inr (basic_result ''```\<newline>5\<newline>```'')"
  by code_simp

text \<open>
  C7, as amended. For every raw text in which the pattern finds a fenced block
  (optionally tagged \<^verbatim>\<open>json\<close>) and with no structured output: when \<^verbatim>\<open>json.loads\<close>
  accepts the stripped inner content, the extraction yields the value it denotes,
  whatever JSON value that is; when \<^verbatim>\<open>json.loads\<close> rejects it with
  \<^verbatim>\<open>JSONDecodeError\<close>, the ladder goes on with its later stages, the whole text and
  then the synthesized record.
\<close>

theorem fenced_block_stage:
  assumes "re_search fence_pattern r = Some g"
  shows "(loads (strip g) = Inr v \<longrightarrow> extract_result loads PNone (Some r) = Inr v)
       \<and> (loads (strip g) = Inl JSONDecodeError \<longrightarrow>
            extract_result loads PNone (Some r) = parse_raw_json loads r)"
proof -
  have "r \<noteq> []" using assms re_search_Nil by auto
  then have "extract_result loads PNone (Some r) = parse_result_json loads r"
    by (simp add: extract_result_eq)
  then show ?thesis using assms by (simp add: parse_result_json_def)
qed

theorem fenced_block_stage_witness:
  "extract_result json_loads PNone
     (Some ''```json\<newline>{\"status\": true, \"summary\": \"ok\", \"insights\": \"\"}\<newline>```'')
   = Inr (PDict [(''status'', PBool True), (''summary'', PStr ''ok''), (''insights'', PStr '''')])
   \<and> extract_result json_loads PNone (Some ''```\<newline>{status: yes}\<newline>```'')
   = Inr (basic_result ''```\<newline>{status: yes}\<newline>```'')"
proof -
  let ?r = "''```json\<newline>{\"status\": true, \"summary\": \"ok\", \"insights\": \"\"}\<newline>```''"
  let ?g = "''{\"status\": true, \"summary\": \"ok\", \"insights\": \"\"}''"
  let ?v = "PDict [(''status'', PBool True), (''summary'', PStr ''ok''), (''insights'', PStr '''')]"
  have g: "re_search fence_pattern ?r = Some ?g"
    by (simp add: fence_pattern_def isspace_def)
  have l: "json_loads (strip ?g) = Inr ?v" by code_simp
  have a: "extract_result json_loads PNone (Some ?r) = Inr ?v"
    using fenced_block_stage [OF g, of json_loads ?v] l by simp
  let ?r' = "''```\<newline>{status: yes}\<newline>```''"
  have g': "re_search fence_pattern ?r' = Some ''{status: yes}''"
    by (simp add: fence_pattern_def isspace_def)
  have l': "json_loads (strip ''{status: yes}'') = Inl JSONDecodeError" by code_simp
  have w: "parse_raw_json json_loads ?r' = Inr (basic_result ?r')" by code_simp
  have b: "extract_result json_loads PNone (Some ?r') = Inr (basic_result ?r')"
    using fenced_block_stage [OF g', of json_loads] l' w by simp
  from a b show ?thesis by simp
qed

text \<open>
  C8, counterexample. The raw text is the empty string and there is no structured
  output. No stage parses it: it has no fenced block and \<^verbatim>\<open>json.loads\<close> rejects it.
  The run does not synthesize a record with an empty summary; the empty string is
  falsy, \<^verbatim>\<open>_parse_result_json\<close> is never called, and the result is absent.
\<close>

theorem empty_text_counterexample:
  "re_search fence_pattern '''' = None
   \<and> json_loads (strip '''') = Inl JSONDecodeError
   \<and> extract_result json_loads PNone (Some '''') = Inr PNone
   \<and> PNone \<noteq> basic_result ''''"
  by code_simp

text \<open>
  C8, as amended. For every raw text on which the two parsing stages fail
  (\<^verbatim>\<open>json.loads\<close> rejects the fenced block, if the pattern finds one, and rejects
  the whole stripped text, each with \<^verbatim>\<open>JSONDecodeError\<close>),
  \<^verbatim>\<open>_parse_result_json\<close> synthesizes the record with status true, the first 500
  characters of the raw text as summary and empty insights; a raw text of at most 500
  characters is the summary unchanged. The extraction of a terminal message without
  structured output yields that record when the raw text is not empty.
\<close>

theorem synthesized_result:
  assumes "loads (strip r) = Inl JSONDecodeError"
    and "\<forall>g. re_search fence_pattern r = Some g \<longrightarrow> loads (strip g) = Inl JSONDecodeError"
  shows "parse_result_json loads r =
           Inr (PDict [(''status'', PBool True), (''summary'', PStr (take 500 r)),
                       (''insights'', PStr '''')])
         \<and> (r \<noteq> [] \<longrightarrow>
              extract_result loads PNone (Some r) =
                Inr (PDict [(''status'', PBool True), (''summary'', PStr (take 500 r)),
                            (''insights'', PStr '''')]))
         \<and> (length r \<le> 500 \<longrightarrow> take 500 r = r)"
proof -
  have raw: "parse_raw_json loads r = Inr (basic_result r)"
    using assms(1) by (simp add: parse_raw_json_def)
  have "parse_result_json loads r = Inr (basic_result r)"
  proof (cases "re_search fence_pattern r")
    case None
    with raw show ?thesis by (simp add: parse_result_json_def)
  next
    case (Some g)
    with assms(2) have "loads (strip g) = Inl JSONDecodeError" by simp
    with Some raw show ?thesis by (simp add: parse_result_json_def)
  qed
  then show ?thesis
    by (simp add: extract_result_eq basic_result_def)
qed

theorem synthesized_result_witness:
  "extract_result json_loads PNone (Some ''plain non-json text'') =
     Inr (PDict [(''status'', PBool True), (''summary'', PStr ''plain non-json text''),
                 (''insights'', PStr '''')])"
proof -
  let ?r = "''plain non-json text''"
  have n: "?r \<noteq> []" by simp
  have l: "json_loads (strip ?r) = Inl JSONDecodeError" by code_simp
  have "re_search fence_pattern ?r = None"
    by (simp add: fence_pattern_def)
  then have g: "\<forall>g. re_search fence_pattern ?r = Some g \<longrightarrow>
                    json_loads (strip g) = Inl JSONDecodeError"
    by simp
  show ?thesis
    using synthesized_result [OF l g] n by simp
qed

end
